theory Spec2Isabelle
  imports Complex_Main "HOL-Library.List_Lexorder" "HOL-Library.Char_ord"
begin

section \<open>Python strings\<close>

text \<open>
  A Python \<open>str\<close> is modelled as a \<open>string\<close>: one \<open>char\<close> per code point, for the code
  points 0..255. \<open>len\<close> is \<open>length\<close>. The functions below follow \<open>str.isspace\<close>,
  \<open>str.strip()\<close>, \<open>str.lower()\<close> and \<open>sep.join(xs)\<close> on that range.
\<close>

definition isspace :: "char \<Rightarrow> bool" where
  "isspace c = (let n = (of_char c :: nat) in
     (9 \<le> n \<and> n \<le> 13) \<or> (28 \<le> n \<and> n \<le> 32) \<or> n = 133 \<or> n = 160)"

definition strip :: "string \<Rightarrow> string" where
  "strip s = rev (dropWhile isspace (rev (dropWhile isspace s)))"

definition lower_char :: "char \<Rightarrow> char" where
  "lower_char c = (let n = (of_char c :: nat) in
     if (65 \<le> n \<and> n \<le> 90) \<or> (192 \<le> n \<and> n \<le> 214) \<or> (216 \<le> n \<and> n \<le> 222)
     then char_of (n + 32) else c)"

definition lower :: "string \<Rightarrow> string" where
  "lower s = map lower_char s"

fun join :: "string \<Rightarrow> string list \<Rightarrow> string" where
  "join sep [] = []"
| "join sep [x] = x"
| "join sep (x # y # ys) = x @ sep @ join sep (y # ys)"

section \<open>Data model\<close>

text \<open>
  The layout collaborator's \<open>page.get_text("dict")\<close> is a tree of dictionaries. Every
  key is read with \<open>dict.get\<close>, so each field is optional and \<open>dict_get\<close> supplies
  the default of the call.
\<close>

definition dict_get :: "'a option \<Rightarrow> 'a \<Rightarrow> 'a" where
  "dict_get v d = (case v of None \<Rightarrow> d | Some x \<Rightarrow> x)"

record span =
  span_text :: "string option"
  span_size :: "real option"
  span_font :: "string option"

record text_line =
  spans :: "span list option"

record layout_block =
  block_type :: "int option"
  lines :: "text_line list option"
  layout_bbox :: "(real \<times> real \<times> real \<times> real) option"

record page_dict =
  layout_blocks :: "layout_block list option"

text \<open>
  A normalised block and a page, as \<open>extract_text_blocks\<close> builds them. \<open>list(fonts)\<close>
  lists a Python set in no fixed order, so \<open>fonts\<close> stays a set.
\<close>

record block =
  btext :: string
  bbox :: "(real \<times> real \<times> real \<times> real) option"
  font_sizes :: "real list"
  max_font_size :: "real option"
  avg_font_size :: "real option"
  fonts :: "string set"

record page =
  page_number :: int
  blocks :: "block list"

section \<open>Block normaliser (\<open>extract_text_blocks\<close>)\<close>

text \<open>
  \<open>span_step\<close> is the body of the loop over the spans of a line, on the three
  accumulators \<open>block_text\<close>, \<open>font_sizes\<close> and \<open>fonts\<close> (written \<open>sizes\<close> and
  \<open>fnts\<close>, the record fields having taken the names); \<open>line_step\<close> is the loop
  over one line's spans. A span without a \<open>size\<close> key adds the default 0 to
  \<open>font_sizes\<close>.
\<close>

fun span_step :: "string \<times> real list \<times> string set \<Rightarrow> span \<Rightarrow> string \<times> real list \<times> string set" where
  "span_step (block_text, sizes, fnts) sp =
     (block_text @ dict_get (span_text sp) [],
      sizes @ [dict_get (span_size sp) 0],
      insert (dict_get (span_font sp) []) fnts)"

definition line_step :: "string \<times> real list \<times> string set \<Rightarrow> text_line \<Rightarrow> string \<times> real list \<times> string set" where
  "line_step acc line = foldl span_step acc (dict_get (spans line) [])"

text \<open>Python's \<open>max\<close> of a non-empty list; the caller guards the empty list.\<close>

fun py_max :: "real list \<Rightarrow> real" where
  "py_max (x # xs) = foldl max x xs"

text \<open>\<open>block_step\<close> is the body of the loop over a page's layout blocks.\<close>

definition block_step :: "block list \<Rightarrow> layout_block \<Rightarrow> block list" where
  "block_step blocks_out b =
     (if block_type b \<noteq> Some 0 then blocks_out
      else case foldl line_step ([], [], {}) (dict_get (lines b) []) of
        (block_text, sizes, fnts) \<Rightarrow>
          if strip block_text = [] then blocks_out
          else blocks_out @ [\<lparr>btext = strip block_text,
                 bbox = layout_bbox b,
                 font_sizes = sizes,
                 max_font_size = (if sizes \<noteq> [] then Some (py_max sizes) else None),
                 avg_font_size = (if sizes \<noteq> []
                    then Some (sum_list sizes / real (length sizes)) else None),
                 fonts = fnts\<rparr>])"

text \<open>
  The opened document is the list of its pages' dictionaries; page \<open>p\<close> of
  \<open>range(doc.page_count)\<close> gets the number \<open>p + 1\<close>.
\<close>

definition extract_text_blocks :: "page_dict list \<Rightarrow> page list" where
  "extract_text_blocks doc =
     map (\<lambda>p. \<lparr>page_number = int p + 1,
               blocks = foldl block_step [] (dict_get (layout_blocks (doc ! p)) [])\<rparr>)
         [0..<length doc]"

text \<open>All spans of a layout block, in reading order.\<close>

definition block_spans :: "layout_block \<Rightarrow> span list" where
  "block_spans b = concat (map (\<lambda>l. dict_get (spans l) []) (dict_get (lines b) []))"


section \<open>Scanned-document heuristic (\<open>needs_ocr_check\<close>)\<close>

text \<open>
  The opened document is the list of its pages' plain texts, \<open>doc[i].get_text("text")\<close>.
  \<open>count_empty_pages\<close> is the loop over the sampled pages with its counter
  \<open>empty_pages\<close>; \<open>range(sample)\<close> is empty for \<open>sample \<le> 0\<close>, and \<open>sample\<close> never
  exceeds the page count, so the pages read are \<open>take (nat sample) doc\<close>.
\<close>

fun count_empty_pages :: "nat \<Rightarrow> string list \<Rightarrow> nat" where
  "count_empty_pages empty_pages [] = empty_pages"
| "count_empty_pages empty_pages (t # ts) =
     count_empty_pages (if length (strip t) < 50 then empty_pages + 1 else empty_pages) ts"

definition needs_ocr_check :: "string list \<Rightarrow> int \<Rightarrow> bool" where
  "needs_ocr_check doc page_sample_count =
     (let sample = min page_sample_count (int (length doc));
          empty_pages = count_empty_pages 0 (take (nat sample) doc)
      in int empty_pages \<ge> max 1 (sample div 2))"

text \<open>A six-page document whose first page alone has almost no text.\<close>

definition body_text :: string where
  "body_text = replicate 60 (CHR ''x'')"

definition ocr_doc6 :: "string list" where
  "ocr_doc6 = [''  scan '', body_text, body_text, body_text, body_text, body_text]"

section \<open>Header/footer repetition detector\<close>

text \<open>
  \<open>phrase_counter\<close> is a \<open>Counter\<close>: a dictionary that keeps its keys in the order of
  first insertion, which is the order \<open>items()\<close> lists them in. \<open>counter_incr\<close> is
  \<open>phrase_counter[text] += 1\<close>.
\<close>

fun counter_incr :: "(string \<times> nat) list \<Rightarrow> string \<Rightarrow> (string \<times> nat) list" where
  "counter_incr [] k = [(k, 1)]"
| "counter_incr ((k', c) # rest) k =
     (if k' = k then (k', c + 1) # rest else (k', c) # counter_incr rest k)"

text \<open>The body of the inner loop, over the blocks of a page, and the two nested loops.\<close>

definition count_block :: "(string \<times> nat) list \<Rightarrow> block \<Rightarrow> (string \<times> nat) list" where
  "count_block phrase_counter b =
     (let text = strip (btext b)
      in if length text < 120 then counter_incr phrase_counter text else phrase_counter)"

definition count_phrases :: "page list \<Rightarrow> (string \<times> nat) list" where
  "count_phrases pages_blocks =
     foldl (\<lambda>phrase_counter pg. foldl count_block phrase_counter (blocks pg)) [] pages_blocks"

text \<open>
  \<open>int(0.3 * len(pages_blocks))\<close> truncates a double. The double nearest to 0.3 lies
  below it by less than \<open>1.2e-17\<close>, so for a multiple of ten the product rounds to the
  exact integer, and for any other page count below \<open>2^50\<close> the exact product is at
  least a tenth away from an integer: the truncation is \<open>3 * n div 10\<close>.
\<close>

definition detect_repeated_headers :: "page list \<Rightarrow> string list" where
  "detect_repeated_headers pages_blocks =
     (let phrase_counter = count_phrases pages_blocks;
          threshold = max 2 (3 * length pages_blocks div 10)
      in map fst (filter (\<lambda>(p, c). c \<ge> threshold) phrase_counter))"

definition remove_repeated_headers_from_blocks :: "page list \<Rightarrow> string list \<Rightarrow> page list" where
  "remove_repeated_headers_from_blocks pages_blocks repeated =
     (if repeated = [] then pages_blocks
      else map (\<lambda>pg. pg\<lparr>blocks := filter (\<lambda>b. strip (btext b) \<notin> set repeated) (blocks pg)\<rparr>)
               pages_blocks)"

text \<open>Test data: a block that carries a text only, and a page of such blocks.\<close>

definition text_block :: "string \<Rightarrow> block" where
  "text_block t = \<lparr>btext = t, bbox = None, font_sizes = [], max_font_size = None,
                   avg_font_size = None, fonts = {}\<rparr>"

definition text_page :: "int \<Rightarrow> string list \<Rightarrow> page" where
  "text_page n ts = \<lparr>page_number = n, blocks = map text_block ts\<rparr>"

text \<open>
  Seven pages; the running head \<open>Hdr\<close> stands on pages 1 and 2 only, each page has its
  own body line.
\<close>

definition header_doc7 :: "page list" where
  "header_doc7 =
     [text_page 1 [''Hdr'', ''one''], text_page 2 [''Hdr'', ''two''],
      text_page 3 [''three''], text_page 4 [''four''], text_page 5 [''five''],
      text_page 6 [''six''], text_page 7 [''seven'']]"

text \<open>One page on which the cell text \<open>Yes\<close> stands twice.\<close>

definition twice_doc1 :: "page list" where
  "twice_doc1 = [text_page 1 [''Yes'', ''No'', ''Yes'']]"

section \<open>Heading and section segmenter\<close>

text \<open>
  A section as the segmenter appends it. \<open>start_page\<close> and \<open>end_page\<close> are copied from
  the accumulator, where they start out as \<open>None\<close>.
\<close>

record doc_section =
  section_id :: string
  heading :: string
  stext :: string
  start_page :: "int option"
  end_page :: "int option"

text \<open>The accumulator \<open>current\<close> of the section being built.\<close>

record current =
  cur_heading :: "string option"
  cur_text :: string
  cur_start_page :: "int option"
  cur_end_page :: "int option"

text \<open>The separator \<open>"\n\n"\<close>, and the decimal numeral an f-string prints for an integer.\<close>

definition blank_line :: string where
  "blank_line = [CHR 0x0A, CHR 0x0A]"

fun digits_of :: "nat \<Rightarrow> string" where
  "digits_of n =
     (if n < 10 then [char_of (48 + n)] else digits_of (n div 10) @ [char_of (48 + n mod 10)])"

declare digits_of.simps [simp del]

definition str_int :: "int \<Rightarrow> string" where
  "str_int i = (if i < 0 then CHR ''-'' # digits_of (nat (- i)) else digits_of (nat i))"

text \<open>
  \<open>b.get("max_font_size")\<close> is tested for truth: a missing size and the size 0 both
  count as no size. \<open>size_of\<close> is what one block adds to \<open>all_font_sizes\<close>.
\<close>

definition size_of :: "block \<Rightarrow> real list" where
  "size_of b = (case max_font_size b of None \<Rightarrow> [] | Some x \<Rightarrow> if x \<noteq> 0 then [x] else [])"

definition all_font_sizes :: "page list \<Rightarrow> real list" where
  "all_font_sizes pages_blocks =
     concat (map (\<lambda>pg. concat (map size_of (blocks pg))) pages_blocks)"

text \<open>
  Modelled from the spec: \<open>numpy.percentile\<close> is a library function, not code of the
  repository; the spec asks for the 90th percentile of the sizes. The model is numpy's
  default method, linear interpolation between the two closest ranks of the sorted
  data, at the position \<open>(n - 1) * q / 100\<close>, in exact arithmetic.
\<close>

definition percentile :: "real list \<Rightarrow> nat \<Rightarrow> real" where
  "percentile a q =
     (let s = sort a; n = length s; k = (n - 1) * q;
          lo = k div 100; hi = min (lo + 1) (n - 1)
      in s ! lo + real (k mod 100) / 100 * (s ! hi - s ! lo))"

definition is_heading :: "real \<Rightarrow> block \<Rightarrow> bool" where
  "is_heading threshold b =
     (case max_font_size b of None \<Rightarrow> False | Some x \<Rightarrow> x \<noteq> 0 \<and> x \<ge> threshold)"

text \<open>
  \<open>uuid4 k\<close> is the identifier drawn by the \<open>k\<close>-th call of \<open>uuid.uuid4()\<close>; every
  appended section draws one, so a section appended to \<open>sections\<close> gets
  \<open>uuid4 (length sections)\<close>. \<open>push_section\<close> is the finalisation block, which the
  source writes twice, with the default headings \<open>Untitled\<close> and \<open>Introduction\<close>.
\<close>

definition push_section :: "(nat \<Rightarrow> string) \<Rightarrow> string \<Rightarrow> doc_section list \<Rightarrow> current \<Rightarrow> doc_section list" where
  "push_section uuid4 dflt sections cur =
     (if (case cur_heading cur of None \<Rightarrow> False | Some h \<Rightarrow> h \<noteq> []) \<or> cur_text cur \<noteq> []
      then sections @
        [\<lparr>section_id = uuid4 (length sections),
          heading = (case cur_heading cur of None \<Rightarrow> dflt | Some h \<Rightarrow> if h \<noteq> [] then h else dflt),
          stext = strip (cur_text cur),
          start_page = cur_start_page cur,
          end_page = cur_end_page cur\<rparr>]
      else sections)"

definition current_init :: current where
  "current_init = \<lparr>cur_heading = None, cur_text = [], cur_start_page = None, cur_end_page = None\<rparr>"

text \<open>The body of the loop over the blocks of page number \<open>pn\<close>.\<close>

fun section_step :: "(nat \<Rightarrow> string) \<Rightarrow> real \<Rightarrow> int \<Rightarrow> doc_section list \<times> current \<Rightarrow> block \<Rightarrow> doc_section list \<times> current" where
  "section_step uuid4 threshold pn (sections, cur) b =
     (if is_heading threshold b
      then (push_section uuid4 ''Untitled'' sections cur,
            \<lparr>cur_heading = Some (strip (btext b)), cur_text = [],
             cur_start_page = Some pn, cur_end_page = Some pn\<rparr>)
      else (sections,
            cur\<lparr>cur_start_page := (if cur_start_page cur = None then Some pn else cur_start_page cur),
                cur_end_page := Some pn,
                cur_text := cur_text cur @ blank_line @ strip (btext b)\<rparr>))"

definition page_section :: "(nat \<Rightarrow> string) \<Rightarrow> doc_section list \<Rightarrow> page \<Rightarrow> doc_section list" where
  "page_section uuid4 sections pg =
     sections @
       [\<lparr>section_id = uuid4 (length sections),
         heading = ''Page '' @ str_int (page_number pg),
         stext = join blank_line (map btext (blocks pg)),
         start_page = Some (page_number pg),
         end_page = Some (page_number pg)\<rparr>]"

definition detect_headings_and_sections :: "(nat \<Rightarrow> string) \<Rightarrow> page list \<Rightarrow> doc_section list" where
  "detect_headings_and_sections uuid4 pages_blocks =
     (if all_font_sizes pages_blocks = []
      then foldl (page_section uuid4) [] pages_blocks
      else let threshold = percentile (all_font_sizes pages_blocks) 90
           in case foldl (\<lambda>st pg. foldl (section_step uuid4 threshold (page_number pg)) st (blocks pg))
                         ([], current_init) pages_blocks of
                (sections, cur) \<Rightarrow> push_section uuid4 ''Introduction'' sections cur)"

text \<open>Test data: a block with a text and one font size, and identifiers \<open>id0\<close>, \<open>id1\<close>, ...\<close>

definition sized_block :: "string \<Rightarrow> real \<Rightarrow> block" where
  "sized_block t s = \<lparr>btext = t, bbox = None, font_sizes = [s], max_font_size = Some s,
                      avg_font_size = Some s, fonts = {}\<rparr>"

definition test_uuid4 :: "nat \<Rightarrow> string" where
  "test_uuid4 k = ''id'' @ digits_of k"

text \<open>Two pages, five blocks with the sizes 10, 10, 10, 10 and 24.\<close>

definition sized_doc5 :: "page list" where
  "sized_doc5 =
     [\<lparr>page_number = 1, blocks = [sized_block ''a'' 10, sized_block ''b'' 10, sized_block ''c'' 10]\<rparr>,
      \<lparr>page_number = 2, blocks = [sized_block ''d'' 10, sized_block ''Title'' 24]\<rparr>]"

text \<open>Three pages without any font size; the second page has no block.\<close>

definition plain_doc3 :: "page list" where
  "plain_doc3 = [text_page 1 [''a'', ''b''], text_page 2 [], text_page 3 [''c'']]"

text \<open>
  Three pages on which no block has a usable font size: the size is 0 or missing. The
  second page has no block.
\<close>

definition unsized_pages3 :: "page list" where
  "unsized_pages3 =
     [\<lparr>page_number = 1, blocks = [sized_block ''a'' 0, text_block ''b'']\<rparr>,
      \<lparr>page_number = 2, blocks = []\<rparr>,
      \<lparr>page_number = 3, blocks = [sized_block ''c'' 0]\<rparr>]"

section \<open>Reference locator (\<open>find_references\<close>)\<close>

definition reference_markers :: "string list" where
  "reference_markers = [''references'', ''reference'', ''bibliography'', ''works cited'']"

text \<open>
  The body of the loop over the blocks, on the flag \<open>found\<close> and the list \<open>ref_texts\<close>.
  The test on an empty page after the inner loop only continues the outer loop and
  changes nothing.
\<close>

fun ref_step :: "bool \<times> string list \<Rightarrow> block \<Rightarrow> bool \<times> string list" where
  "ref_step (found, ref_texts) b =
     (let t = strip (btext b)
      in if \<not> found \<and> lower t \<in> set reference_markers then (True, ref_texts)
         else if found then (found, ref_texts @ [t])
         else (found, ref_texts))"

definition find_references :: "page list \<Rightarrow> string" where
  "find_references pages_blocks =
     (case foldl (\<lambda>st pg. foldl ref_step st (blocks pg)) (False, []) pages_blocks of
        (found, ref_texts) \<Rightarrow> strip (join blank_line ref_texts))"

text \<open>
  A block as the normaliser leaves it: its text is stripped and not empty.
\<close>

definition normalised :: "block \<Rightarrow> bool" where
  "normalised b = (strip (btext b) = btext b \<and> btext b \<noteq> [])"

text \<open>Four pages: the marker closes page 3, two entries stand on page 4.\<close>

definition refs_doc4 :: "page list" where
  "refs_doc4 =
     [text_page 1 [''Intro''], text_page 2 [],
      text_page 3 [''Body'', ''References''], text_page 4 [''[1] A'', ''[2] B'']]"

section \<open>Batch driver (\<open>batch_process\<close>)\<close>

definition isalnum :: "char \<Rightarrow> bool" where
  "isalnum c = (let n = (of_char c :: nat) in
     (48 \<le> n \<and> n \<le> 57) \<or> (65 \<le> n \<and> n \<le> 90) \<or> (97 \<le> n \<and> n \<le> 122)
     \<or> n = 170 \<or> n = 178 \<or> n = 179 \<or> n = 181 \<or> n = 185 \<or> n = 186
     \<or> (188 \<le> n \<and> n \<le> 190) \<or> (192 \<le> n \<and> n \<le> 214)
     \<or> (216 \<le> n \<and> n \<le> 246) \<or> (248 \<le> n \<and> n \<le> 255))"

definition sanitize_filename :: "string \<Rightarrow> string" where
  "sanitize_filename name =
     take 200 (map (\<lambda>c. if isalnum c \<or> c \<in> set ''._-'' then c else CHR ''_'') name)"

text \<open>
  What a call raises: an exception of class \<open>Exception\<close>, which the handler
  \<open>except Exception\<close> of the batch driver catches, or one that is only a
  \<open>BaseException\<close> (\<open>KeyboardInterrupt\<close>, \<open>SystemExit\<close>), which it lets through.
\<close>

datatype raised = Exception string | BaseException string

text \<open>
  The two keys of the processed document that the driver reads; the other keys are the
  record's extension. A manifest entry.
\<close>

record doc_out =
  doc_id :: string
  filename :: string

record manifest_entry =
  entry_doc_id :: string
  entry_filename :: string
  json_path :: string

text \<open>
  The libraries and the operating system, as far as the driver depends on them.
  \<^item> \<open>analyse path output_dir\<close> is \<open>process_pdf\<close> up to the assembled dictionary \<open>out\<close>:
    the work done through the PDF libraries. Its second component tells whether it
    wrote a table or an image, which creates \<open>output_dir\<close> along with the subdirectory.
  \<^item> \<open>makedirs dir\<close> is \<open>os.makedirs(dir, exist_ok=True)\<close>: \<open>None\<close> when the directory
    exists afterwards, the exception otherwise.
  \<^item> \<open>dump_json file out\<close> and \<open>dump_manifest file manifest\<close> are \<open>open(file, "w")\<close> with
    \<open>json.dump\<close> in a directory that exists: \<open>None\<close> when the file is written.
  \<^item> \<open>stem\<close> is pathlib's \<open>Path.stem\<close>, \<open>path_join\<close> is \<open>os.path.join\<close>, \<open>joinpath\<close> is
    \<open>str(dir / name)\<close>.
\<close>

record 'a collaborators =
  analyse :: "string \<Rightarrow> string \<Rightarrow> (raised + 'a doc_out_scheme) \<times> bool"
  makedirs :: "string \<Rightarrow> raised option"
  dump_json :: "string \<Rightarrow> 'a doc_out_scheme \<Rightarrow> raised option"
  dump_manifest :: "string \<Rightarrow> manifest_entry list \<Rightarrow> raised option"
  stem :: "string \<Rightarrow> string"
  path_join :: "string \<Rightarrow> string \<Rightarrow> string"
  joinpath :: "string \<Rightarrow> string \<Rightarrow> string"

text \<open>
  \<open>process_pdf\<close> returns the document or the exception raised, and whether the call has
  left \<open>output_dir\<close> in existence. It creates the directory only after the analysis,
  just before it writes the JSON file.
\<close>

definition process_pdf ::
  "'a collaborators \<Rightarrow> string \<Rightarrow> string \<Rightarrow> (raised + 'a doc_out_scheme) \<times> bool" where
  "process_pdf libs path output_dir =
     (case analyse libs path output_dir of
        (Inl e, made) \<Rightarrow> (Inl e, made)
      | (Inr out, made) \<Rightarrow>
          (case makedirs libs output_dir of
             Some e \<Rightarrow> (Inl e, made)
           | None \<Rightarrow>
               (case dump_json libs
                       (path_join libs output_dir (sanitize_filename (stem libs path) @ ''.json''))
                       out of
                  Some e \<Rightarrow> (Inl e, True)
                | None \<Rightarrow> (Inr out, True))))"

text \<open>The dictionary that the driver appends to \<open>manifest\<close> for a processed file.\<close>

definition entry_for ::
  "'a collaborators \<Rightarrow> string \<Rightarrow> string \<Rightarrow> 'a doc_out_scheme \<Rightarrow> manifest_entry" where
  "entry_for libs output_dir pdf out =
     \<lparr>entry_doc_id = doc_id out,
      entry_filename = filename out,
      json_path = joinpath libs output_dir (sanitize_filename (stem libs pdf) @ ''.json'')\<rparr>"

text \<open>
  \<open>batch_loop\<close> is the loop over the sorted paths, on the list \<open>manifest\<close> and on
  whether \<open>output_dir\<close> exists. \<open>Inl\<close> is an exception that leaves the driver.
\<close>

fun batch_loop ::
  "'a collaborators \<Rightarrow> string \<Rightarrow> manifest_entry list \<times> bool \<Rightarrow> string list \<Rightarrow>
   raised + manifest_entry list \<times> bool" where
  "batch_loop libs output_dir (manifest, dir_exists) [] = Inr (manifest, dir_exists)"
| "batch_loop libs output_dir (manifest, dir_exists) (pdf # pdfs) =
     (case process_pdf libs pdf output_dir of
        (Inr out, made) \<Rightarrow>
          batch_loop libs output_dir
            (manifest @ [entry_for libs output_dir pdf out], dir_exists \<or> made) pdfs
      | (Inl (Exception e), made) \<Rightarrow>
          batch_loop libs output_dir (manifest, dir_exists \<or> made) pdfs
      | (Inl (BaseException e), made) \<Rightarrow> Inl (BaseException e))"

text \<open>
  \<open>pdfs\<close> are the paths that \<open>input_dir.glob("*.pdf")\<close> yields. They lie in one
  directory, so sorting the paths is sorting their strings. \<open>dir_exists\<close> tells whether
  \<open>output_dir\<close> exists when the driver starts. The driver itself never creates it, and
  the manifest is written after the loop, outside the \<open>try\<close>: \<open>open\<close> raises
  \<open>FileNotFoundError\<close> when the directory is still missing. The result \<open>Inr manifest\<close> is
  the manifest written.
\<close>

definition batch_process ::
  "'a collaborators \<Rightarrow> string list \<Rightarrow> string \<Rightarrow> bool \<Rightarrow> raised + manifest_entry list" where
  "batch_process libs pdfs output_dir dir_exists =
     (case batch_loop libs output_dir ([], dir_exists) (sort pdfs) of
        Inl e \<Rightarrow> Inl e
      | Inr (manifest, dir_exists') \<Rightarrow>
          if \<not> dir_exists' then Inl (Exception ''FileNotFoundError'')
          else case dump_manifest libs (joinpath libs output_dir ''documents_manifest.json'')
                      manifest of
                 Some e \<Rightarrow> Inl e
               | None \<Rightarrow> Inr manifest)"

text \<open>
  Test data: the file \<open>b.pdf\<close> cannot be opened, every other file is processed; no
  tables or images are written, and the operating system accepts every write.
\<close>

definition test_libs :: "unit collaborators" where
  "test_libs =
     \<lparr>analyse = (\<lambda>path output_dir.
         if path = ''b.pdf'' then (Inl (Exception ''cannot open broken document''), False)
         else (Inr \<lparr>doc_id = ''doc-'' @ path, filename = path\<rparr>, False)),
      makedirs = (\<lambda>dir. None),
      dump_json = (\<lambda>file out. None),
      dump_manifest = (\<lambda>file manifest. None),
      stem = (\<lambda>name. take (length name - 4) name),
      path_join = (\<lambda>dir name. dir @ ''/'' @ name),
      joinpath = (\<lambda>dir name. dir @ ''/'' @ name)\<rparr>"

section \<open>Block consumption of the segmenter\<close>

text \<open>
  The blocks of a document in reading order, each with the number of its page; the
  text that a run of body blocks leaves in \<open>current["text"]\<close>.
\<close>

definition block_stream :: "page list \<Rightarrow> (int \<times> block) list" where
  "block_stream pages_blocks =
     concat (map (\<lambda>pg. map (Pair (page_number pg)) (blocks pg)) pages_blocks)"

definition pieces :: "block list \<Rightarrow> string" where
  "pieces bs = concat (map (\<lambda>b. blank_line @ strip (btext b)) bs)"

text \<open>
  \<open>sec_from threshold s g\<close>: the section \<open>s\<close> is made of the run \<open>g\<close> of the stream and
  of nothing else. The run is not empty and only its first block may be a heading. If
  it is, it gives the section's heading and the other blocks give its text; if not, all
  blocks give the text and the heading is a default one. The section starts on the
  page of the first block of the run and ends on the page of the last.
\<close>

definition sec_from :: "real \<Rightarrow> doc_section \<Rightarrow> (int \<times> block) list \<Rightarrow> bool" where
  "sec_from threshold s g =
     (g \<noteq> []
      \<and> start_page s = Some (fst (hd g)) \<and> end_page s = Some (fst (last g))
      \<and> list_all (\<lambda>x. \<not> is_heading threshold (snd x)) (tl g)
      \<and> (if is_heading threshold (snd (hd g))
         then heading s = strip (btext (snd (hd g))) \<and> stext s = strip (pieces (map snd (tl g)))
         else (heading s = ''Untitled'' \<or> heading s = ''Introduction'')
              \<and> stext s = strip (pieces (map snd g))))"

text \<open>
  \<open>cur_from threshold cur g\<close>: the same for the accumulator \<open>current\<close> and the run \<open>g\<close> of
  blocks read since the last section was appended.
\<close>

definition cur_from :: "real \<Rightarrow> current \<Rightarrow> (int \<times> block) list \<Rightarrow> bool" where
  "cur_from threshold cur g =
     (if g = [] then cur = current_init
      else cur_start_page cur = Some (fst (hd g)) \<and> cur_end_page cur = Some (fst (last g))
        \<and> list_all (\<lambda>x. \<not> is_heading threshold (snd x)) (tl g)
        \<and> (if is_heading threshold (snd (hd g))
           then cur_heading cur = Some (strip (btext (snd (hd g))))
                \<and> cur_text cur = pieces (map snd (tl g))
           else cur_heading cur = None \<and> cur_text cur = pieces (map snd g)))"

text \<open>
  \<open>built_from sizes s g\<close>: what the section \<open>s\<close> takes from the run \<open>g\<close>, on either path
  of the segmenter. Without font sizes the run is one page's blocks, joined into the
  text; with font sizes it is \<open>sec_from\<close> at the 90th percentile.
\<close>

definition built_from :: "real list \<Rightarrow> doc_section \<Rightarrow> (int \<times> block) list \<Rightarrow> bool" where
  "built_from sizes s g =
     (if sizes = []
      then stext s = join blank_line (map (\<lambda>x. btext (snd x)) g)
           \<and> list_all (\<lambda>x. start_page s = Some (fst x) \<and> end_page s = Some (fst x)) g
      else sec_from (percentile sizes 90) s g)"

text \<open>
  Three pages: an opening line, the heading \<open>Title\<close> with a body that runs on to page 2,
  and the heading \<open>Second\<close> at the foot of page 2 with its body on page 3.
\<close>

definition chapters_doc3 :: "page list" where
  "chapters_doc3 =
     [\<lparr>page_number = 1,
       blocks = [sized_block ''opening'' 10, sized_block ''Title'' 24, sized_block ''one'' 10]\<rparr>,
      \<lparr>page_number = 2, blocks = [sized_block ''two'' 10, sized_block ''Second'' 24]\<rparr>,
      \<lparr>page_number = 3, blocks = [sized_block ''three'' 10]\<rparr>]"

text \<open>
  The pages that \<open>process_pdf\<close> hands to the segmenter and to the reference locator:
  the normalised blocks, with the repeated headers removed when there are any.
\<close>

definition filtered_pages :: "page_dict list \<Rightarrow> page list" where
  "filtered_pages doc =
     (let pages_blocks = extract_text_blocks doc;
          repeated = detect_repeated_headers pages_blocks
      in if repeated \<noteq> [] then remove_repeated_headers_from_blocks pages_blocks repeated
         else pages_blocks)"

section \<open>Properties of the scanned-document heuristic\<close>

lemma count_empty_pages_acc:
  "count_empty_pages k ts = k + length (filter (\<lambda>t. length (strip t) < 50) ts)"
  by (induction ts arbitrary: k) auto

lemma strip_body_text: "strip body_text = body_text"
proof -
  have "dropWhile isspace (replicate 60 (CHR ''x'')) = replicate 60 (CHR ''x'')"
    by (rule dropWhile_eq_self_iff [THEN iffD2]) (simp add: isspace_def)
  then show ?thesis
    by (simp add: strip_def body_text_def)
qed

lemma strip_scan: "strip ''  scan '' = ''scan''"
  by (simp add: strip_def isspace_def)

lemma count_empty_ocr_doc6: "count_empty_pages 0 (take 3 ocr_doc6) = 1"
  by (simp add: ocr_doc6_def strip_body_text strip_scan) (simp add: body_text_def)

text \<open>
  C1 (as amended). With the default sample count 3, \<open>needs_ocr_check\<close> looks at the first
  \<open>min 3 page_count\<close> pages, counts those whose stripped text is shorter than 50
  characters, and answers true exactly when that count is at least
  \<open>max 1 (sample div 2)\<close>, the division rounding down. For a document of six pages
  with exactly one near-empty page among the first three the answer is therefore true.
\<close>

theorem needs_ocr_check_floor_half:
  "needs_ocr_check doc 3 =
     (max 1 (min 3 (length doc) div 2)
        \<le> length (filter (\<lambda>t. length (strip t) < 50) (take (min 3 (length doc)) doc)))
   \<and> (length doc = 6 \<and> length (filter (\<lambda>t. length (strip t) < 50) (take 3 doc)) = 1
        \<longrightarrow> needs_ocr_check doc 3)"
proof -
  let ?s = "min 3 (length doc)"
  have sample: "min 3 (int (length doc)) = int ?s"
    by simp
  have "needs_ocr_check doc 3 =
      (max 1 (int ?s div 2) \<le> int (length (filter (\<lambda>t. length (strip t) < 50) (take ?s doc))))"
    unfolding needs_ocr_check_def Let_def sample
    by (simp add: count_empty_pages_acc)
  also have "max 1 (int ?s div 2) = int (max 1 (?s div 2))"
    by (simp add: zdiv_int)
  finally have eq: "needs_ocr_check doc 3 =
      (max 1 (?s div 2) \<le> length (filter (\<lambda>t. length (strip t) < 50) (take ?s doc)))"
    using of_nat_le_iff by metis
  show ?thesis
    using eq by auto
qed

theorem needs_ocr_check_floor_half_witness:
  "length ocr_doc6 = 6
   \<and> length (filter (\<lambda>t. length (strip t) < 50) (take 3 ocr_doc6)) = 1
   \<and> needs_ocr_check ocr_doc6 3"
proof -
  have len: "length ocr_doc6 = 6"
    by (simp add: ocr_doc6_def)
  have one: "length (filter (\<lambda>t. length (strip t) < 50) (take 3 ocr_doc6)) = 1"
    using count_empty_ocr_doc6 by (simp add: count_empty_pages_acc)
  show ?thesis
    using needs_ocr_check_floor_half [of ocr_doc6] len one by blast
qed

text \<open>
  C1 as the claim words it fails: the document \<open>ocr_doc6\<close> has six pages, exactly one of
  its first three pages is near-empty, and the check still answers true, since
  \<open>3 div 2 = 1\<close>.
\<close>

theorem needs_ocr_check_one_of_three_counterexample:
  "length ocr_doc6 = 6 \<and> count_empty_pages 0 (take 3 ocr_doc6) = 1
   \<and> needs_ocr_check ocr_doc6 3"
proof -
  have "min 3 (int (length ocr_doc6)) = 3"
    by (simp add: ocr_doc6_def)
  then have "needs_ocr_check ocr_doc6 3"
    unfolding needs_ocr_check_def Let_def
    by (simp add: count_empty_ocr_doc6)
  then show ?thesis
    by (simp add: count_empty_ocr_doc6) (simp add: ocr_doc6_def)
qed

text \<open>
  C10. A document with no pages is never flagged, whatever the sample count: the sample
  is empty, the counter stays 0, and the threshold is at least 1.
\<close>

theorem needs_ocr_check_no_pages:
  "needs_ocr_check [] page_sample_count = False"
  by (simp add: needs_ocr_check_def Let_def)

section \<open>Properties of the block normaliser\<close>

lemma foldl_span_step:
  "foldl span_step (t, fs, fo) sps =
     (t @ concat (map (\<lambda>sp. dict_get (span_text sp) []) sps),
      fs @ map (\<lambda>sp. dict_get (span_size sp) 0) sps,
      fo \<union> set (map (\<lambda>sp. dict_get (span_font sp) []) sps))"
  by (induction sps arbitrary: t fs fo) auto

lemma foldl_line_step:
  "foldl line_step (t, fs, fo) lns =
     (t @ concat (map (\<lambda>sp. dict_get (span_text sp) [])
                      (concat (map (\<lambda>l. dict_get (spans l) []) lns))),
      fs @ map (\<lambda>sp. dict_get (span_size sp) 0)
               (concat (map (\<lambda>l. dict_get (spans l) []) lns)),
      fo \<union> set (map (\<lambda>sp. dict_get (span_font sp) [])
                     (concat (map (\<lambda>l. dict_get (spans l) []) lns))))"
  by (induction lns arbitrary: t fs fo) (auto simp: line_step_def foldl_span_step)


lemma block_step_append: "block_step acc b = acc @ block_step [] b"
  by (simp add: block_step_def split: prod.splits)

lemma foldl_block_step:
  "foldl block_step acc bs = acc @ concat (map (block_step []) bs)"
proof (induction bs arbitrary: acc)
  case Nil
  show ?case by simp
next
  case (Cons b bs)
  have "foldl block_step acc (b # bs) = foldl block_step (block_step acc b) bs"
    by simp
  also have "\<dots> = block_step acc b @ concat (map (block_step []) bs)"
    by (rule Cons.IH)
  also have "\<dots> = acc @ concat (map (block_step []) (b # bs))"
    using block_step_append [of acc b] by simp
  finally show ?case .
qed

lemma block_step_emitted:
  assumes "b \<in> set (block_step [] lb)"
  shows "block_type lb = Some 0
    \<and> btext b = strip (concat (map (\<lambda>sp. dict_get (span_text sp) []) (block_spans lb)))
    \<and> btext b \<noteq> []
    \<and> font_sizes b = map (\<lambda>sp. dict_get (span_size sp) 0) (block_spans lb)
    \<and> max_font_size b = (if font_sizes b \<noteq> [] then Some (py_max (font_sizes b)) else None)
    \<and> avg_font_size b = (if font_sizes b \<noteq> []
         then Some (sum_list (font_sizes b) / real (length (font_sizes b))) else None)"
  using assms
  by (auto simp: block_step_def foldl_line_step block_spans_def split: if_splits)

lemma strip_Nil: "strip [] = []"
  by (simp add: strip_def)

lemma extract_text_blocks_source:
  assumes "p \<in> set (extract_text_blocks doc)" and "b \<in> set (blocks p)"
  shows "\<exists>i lb. i < length doc \<and> page_number p = int i + 1
     \<and> lb \<in> set (dict_get (layout_blocks (doc ! i)) []) \<and> b \<in> set (block_step [] lb)"
proof -
  from assms(1) obtain i where i: "i < length doc"
    and p: "p = \<lparr>page_number = int i + 1,
                 blocks = foldl block_step [] (dict_get (layout_blocks (doc ! i)) [])\<rparr>"
    by (auto simp: extract_text_blocks_def)
  from assms(2) p have "b \<in> set (concat (map (block_step []) (dict_get (layout_blocks (doc ! i)) [])))"
    by (simp add: foldl_block_step)
  then obtain lb where "lb \<in> set (dict_get (layout_blocks (doc ! i)) [])" "b \<in> set (block_step [] lb)"
    by auto
  with i p show ?thesis by auto
qed




section \<open>Properties of the repetition detector\<close>

lemma strip_eval_simps:
  "strip ''Hdr'' = ''Hdr''" "strip ''one'' = ''one''" "strip ''two'' = ''two''"
  "strip ''three'' = ''three''" "strip ''four'' = ''four''" "strip ''five'' = ''five''"
  "strip ''six'' = ''six''" "strip ''seven'' = ''seven''"
  "strip ''Yes'' = ''Yes''" "strip ''No'' = ''No''"
  by (simp_all add: strip_def isspace_def)

lemma count_phrases_header_doc7:
  "count_phrases header_doc7 =
     [(''Hdr'', 2), (''one'', 1), (''two'', 1), (''three'', 1), (''four'', 1),
      (''five'', 1), (''six'', 1), (''seven'', 1)]"
  by (simp add: count_phrases_def header_doc7_def text_page_def text_block_def
      count_block_def strip_eval_simps)

text \<open>
  C2, at the failing input. \<open>header_doc7\<close> has seven pages and \<open>Hdr\<close> stands on two of
  them, fewer than \<open>ceil (0.3 * 7) = 3\<close>; the detector's threshold is
  \<open>max 2 (21 div 10) = 2\<close>, so \<open>Hdr\<close> is reported as repeated and the removal takes it
  from both pages.
\<close>

theorem detect_repeated_headers_truncates:
  "length header_doc7 = 7
   \<and> detect_repeated_headers header_doc7 = [''Hdr'']
   \<and> remove_repeated_headers_from_blocks header_doc7 (detect_repeated_headers header_doc7) =
       [text_page 1 [''one''], text_page 2 [''two''],
        text_page 3 [''three''], text_page 4 [''four''], text_page 5 [''five''],
        text_page 6 [''six''], text_page 7 [''seven'']]"
proof -
  have len: "length header_doc7 = 7"
    by (simp add: header_doc7_def)
  have det: "detect_repeated_headers header_doc7 = [''Hdr'']"
    by (simp add: detect_repeated_headers_def count_phrases_header_doc7 len)
  have "remove_repeated_headers_from_blocks header_doc7 [''Hdr''] =
       [text_page 1 [''one''], text_page 2 [''two''],
        text_page 3 [''three''], text_page 4 [''four''], text_page 5 [''five''],
        text_page 6 [''six''], text_page 7 [''seven'']]"
    by (simp add: remove_repeated_headers_from_blocks_def header_doc7_def text_page_def
        text_block_def strip_eval_simps)
  then show ?thesis
    using len det by simp
qed

text \<open>
  C3, at the failing input. On the single page of \<open>twice_doc1\<close> the text \<open>Yes\<close> stands in
  two blocks; the counter gives it 2, one per block, and with the threshold 2 it is
  reported as repeated although it occurs on one page only.
\<close>

theorem count_phrases_counts_blocks:
  "length twice_doc1 = 1
   \<and> count_phrases twice_doc1 = [(''Yes'', 2), (''No'', 1)]
   \<and> detect_repeated_headers twice_doc1 = [''Yes'']"
proof -
  have cnt: "count_phrases twice_doc1 = [(''Yes'', 2), (''No'', 1)]"
    by (simp add: count_phrases_def twice_doc1_def text_page_def text_block_def
        count_block_def strip_eval_simps)
  have "detect_repeated_headers twice_doc1 = [''Yes'']"
    by (simp add: detect_repeated_headers_def cnt) (simp add: twice_doc1_def)
  then show ?thesis
    using cnt by (simp add: twice_doc1_def)
qed

section \<open>Properties of the segmenter: fallback and threshold\<close>

lemma foldl_page_section:
  "foldl (page_section uuid4) acc pages_blocks =
     acc @ map (\<lambda>(i, pg). \<lparr>section_id = uuid4 i,
                            heading = ''Page '' @ str_int (page_number pg),
                            stext = join blank_line (map btext (blocks pg)),
                            start_page = Some (page_number pg),
                            end_page = Some (page_number pg)\<rparr>)
               (enumerate (length acc) pages_blocks)"
proof (induction pages_blocks arbitrary: acc)
  case Nil
  show ?case by simp
next
  case (Cons pg pages_blocks)
  show ?case
    by (simp add: Cons.IH) (simp add: page_section_def)
qed

lemma all_font_sizes_blocks:
  "all_font_sizes pages_blocks = concat (map size_of (concat (map blocks pages_blocks)))"
  by (induction pages_blocks) (simp_all add: all_font_sizes_def)

lemma size_of_Nil_iff:
  "size_of b = [] \<longleftrightarrow> max_font_size b = None \<or> max_font_size b = Some 0"
  by (cases "max_font_size b") (simp_all add: size_of_def)

lemma all_font_sizes_Nil_iff:
  "all_font_sizes pages_blocks = [] \<longleftrightarrow>
     (\<forall>pg\<in>set pages_blocks. \<forall>b\<in>set (blocks pg).
        max_font_size b = None \<or> max_font_size b = Some 0)"
  by (simp add: all_font_sizes_def size_of_Nil_iff)

text \<open>
  C6. When no block of the document carries a font size, that is, \<open>max_font_size\<close> is
  missing or 0 on every block, which is what the segmenter's test for a size
  lets through, the segmenter returns one section per page, in page order: the \<open>i\<close>-th
  section carries the \<open>i\<close>-th identifier drawn, the heading \<open>Page n\<close> for the page's number
  \<open>n\<close>, the page's block texts joined by blank lines, and \<open>n\<close> as both start and end
  page. So there are exactly as many sections as pages.
\<close>

theorem detect_headings_and_sections_fallback:
  assumes "\<forall>pg\<in>set pages_blocks. \<forall>b\<in>set (blocks pg).
             max_font_size b = None \<or> max_font_size b = Some 0"
  shows "detect_headings_and_sections uuid4 pages_blocks =
           map (\<lambda>(i, pg). \<lparr>section_id = uuid4 i,
                            heading = ''Page '' @ str_int (page_number pg),
                            stext = join blank_line (map btext (blocks pg)),
                            start_page = Some (page_number pg),
                            end_page = Some (page_number pg)\<rparr>)
               (enumerate 0 pages_blocks)
         \<and> length (detect_headings_and_sections uuid4 pages_blocks) = length pages_blocks"
proof -
  have "all_font_sizes pages_blocks = []"
    using assms by (simp add: all_font_sizes_Nil_iff)
  then have "detect_headings_and_sections uuid4 pages_blocks =
      foldl (page_section uuid4) [] pages_blocks"
    by (simp add: detect_headings_and_sections_def)
  then show ?thesis
    by (simp add: foldl_page_section)
qed

lemma str_int_eval: "str_int 1 = ''1''" "str_int 2 = ''2''" "str_int 3 = ''3''"
  by code_simp+

lemma test_uuid4_eval:
  "test_uuid4 0 = ''id0''" "test_uuid4 (Suc 0) = ''id1''" "test_uuid4 2 = ''id2''"
  "test_uuid4 (Suc (Suc 0)) = ''id2''"
  by code_simp+

theorem detect_headings_and_sections_fallback_witness:
  "map max_font_size (concat (map blocks unsized_pages3)) = [Some 0, None, Some 0]
   \<and> detect_headings_and_sections test_uuid4 unsized_pages3 =
       [\<lparr>section_id = ''id0'', heading = ''Page 1'', stext = ''a'' @ blank_line @ ''b'',
         start_page = Some 1, end_page = Some 1\<rparr>,
        \<lparr>section_id = ''id1'', heading = ''Page 2'', stext = [],
         start_page = Some 2, end_page = Some 2\<rparr>,
        \<lparr>section_id = ''id2'', heading = ''Page 3'', stext = ''c'',
         start_page = Some 3, end_page = Some 3\<rparr>]"
proof -
  have h: "\<forall>pg\<in>set unsized_pages3. \<forall>b\<in>set (blocks pg).
      max_font_size b = None \<or> max_font_size b = Some 0"
    by (simp add: unsized_pages3_def sized_block_def text_block_def)
  have "detect_headings_and_sections test_uuid4 unsized_pages3 =
       [\<lparr>section_id = ''id0'', heading = ''Page 1'', stext = ''a'' @ blank_line @ ''b'',
         start_page = Some 1, end_page = Some 1\<rparr>,
        \<lparr>section_id = ''id1'', heading = ''Page 2'', stext = [],
         start_page = Some 2, end_page = Some 2\<rparr>,
        \<lparr>section_id = ''id2'', heading = ''Page 3'', stext = ''c'',
         start_page = Some 3, end_page = Some 3\<rparr>]"
    using detect_headings_and_sections_fallback [OF h, of test_uuid4]
    by (simp add: unsized_pages3_def sized_block_def text_block_def str_int_eval
        test_uuid4_eval)
  then show ?thesis
    by (simp add: unsized_pages3_def sized_block_def text_block_def)
qed

lemma map_eq_five:
  assumes "map f xs = [a, b, c, d, e]"
  shows "\<exists>x1 x2 x3 x4 x5. xs = [x1, x2, x3, x4, x5]
           \<and> f x1 = a \<and> f x2 = b \<and> f x3 = c \<and> f x4 = d \<and> f x5 = e"
  using assms by (auto simp: map_eq_Cons_conv)

text \<open>
  C7. When the blocks of the document, in reading order, have the sizes 10, 10, 10, 10
  and 24, the threshold is the 90th percentile \<open>92 / 5 = 18.4\<close> of these sizes: above
  10, not above 24. The block of size 24 is the only heading.
\<close>

theorem heading_threshold_five_blocks:
  assumes "map max_font_size (concat (map blocks pages_blocks)) =
             [Some 10, Some 10, Some 10, Some 10, Some 24]"
  shows "percentile (all_font_sizes pages_blocks) 90 = 92 / 5
         \<and> 10 < percentile (all_font_sizes pages_blocks) 90
         \<and> percentile (all_font_sizes pages_blocks) 90 \<le> 24
         \<and> map (is_heading (percentile (all_font_sizes pages_blocks) 90))
                (concat (map blocks pages_blocks)) = [False, False, False, False, True]"
proof -
  from map_eq_five [OF assms] obtain b1 b2 b3 b4 b5 where
    bs: "concat (map blocks pages_blocks) = [b1, b2, b3, b4, b5]"
    and m: "max_font_size b1 = Some 10" "max_font_size b2 = Some 10"
      "max_font_size b3 = Some 10" "max_font_size b4 = Some 10" "max_font_size b5 = Some 24"
    by blast
  have afs: "all_font_sizes pages_blocks = [10, 10, 10, 10, 24]"
    by (simp add: all_font_sizes_blocks bs size_of_def m)
  have t: "percentile (all_font_sizes pages_blocks) 90 = 92 / 5"
    by (simp add: afs percentile_def)
  have "map (is_heading (92 / 5)) [b1, b2, b3, b4, b5] = [False, False, False, False, True]"
    by (simp add: is_heading_def m)
  then show ?thesis
    by (simp add: t bs)
qed

theorem heading_threshold_five_blocks_witness:
  "map max_font_size (concat (map blocks sized_doc5)) =
     [Some 10, Some 10, Some 10, Some 10, Some 24]
   \<and> percentile (all_font_sizes sized_doc5) 90 = 92 / 5
   \<and> map (is_heading (percentile (all_font_sizes sized_doc5) 90))
          (concat (map blocks sized_doc5)) = [False, False, False, False, True]
   \<and> map heading (detect_headings_and_sections test_uuid4 sized_doc5) = [''Untitled'', ''Title'']"
proof -
  have h: "map max_font_size (concat (map blocks sized_doc5)) =
     [Some 10, Some 10, Some 10, Some 10, Some 24]"
    by (simp add: sized_doc5_def sized_block_def)
  note t = heading_threshold_five_blocks [OF h]
  have afs: "all_font_sizes sized_doc5 \<noteq> []"
    by (simp add: all_font_sizes_def sized_doc5_def sized_block_def size_of_def)
  have "map heading (detect_headings_and_sections test_uuid4 sized_doc5) = [''Untitled'', ''Title'']"
    using afs t
    by (simp add: detect_headings_and_sections_def)
       (simp add: sized_doc5_def sized_block_def is_heading_def push_section_def current_init_def
          strip_def isspace_def)
  then show ?thesis
    using h t by blast
qed

section \<open>Properties of the reference locator\<close>

lemma foldl_pages_blocks:
  "foldl (\<lambda>st pg. foldl f st (blocks pg)) st pages_blocks =
     foldl f st (concat (map blocks pages_blocks))"
  by (induction pages_blocks arbitrary: st) simp_all

lemma ref_step_found:
  "foldl ref_step (True, acc) bs = (True, acc @ map (\<lambda>b. strip (btext b)) bs)"
  by (induction bs arbitrary: acc) simp_all

lemma ref_step_search:
  "foldl ref_step (False, []) bs =
     (case dropWhile (\<lambda>b. lower (strip (btext b)) \<notin> set reference_markers) bs of
        [] \<Rightarrow> (False, [])
      | m # rest \<Rightarrow> (True, map (\<lambda>b. strip (btext b)) rest))"
proof (induction bs)
  case Nil
  show ?case by simp
next
  case (Cons b bs)
  show ?case
  proof (cases "lower (strip (btext b)) \<in> set reference_markers")
    case True
    then show ?thesis
      using ref_step_found [of "[]" bs] by simp
  next
    case False
    then show ?thesis
      using Cons.IH by simp
  qed
qed

lemma strip_fixed:
  assumes "s \<noteq> []" and "\<not> isspace (hd s)" and "\<not> isspace (last s)"
  shows "strip s = s"
proof -
  have front: "dropWhile isspace s = s"
    using assms(1,2) by (cases s) simp_all
  obtain c cs where r: "rev s = c # cs"
    using assms(1) by (cases "rev s") auto
  have "c = last s"
    using r by (metis hd_rev list.sel(1))
  then have "dropWhile isspace (c # cs) = c # cs"
    using assms(3) by simp
  then have "dropWhile isspace (rev s) = rev s"
    using r by simp
  then show ?thesis
    by (simp add: strip_def front)
qed

lemma strip_fixed_ends:
  assumes "strip s = s" and "s \<noteq> []"
  shows "\<not> isspace (hd s) \<and> \<not> isspace (last s)"
proof -
  have len: "length (dropWhile isspace (rev (dropWhile isspace s))) = length s"
    using assms(1) by (metis length_rev strip_def)
  have l1: "length (dropWhile isspace (rev (dropWhile isspace s))) \<le> length (dropWhile isspace s)"
    using length_dropWhile_le [of isspace "rev (dropWhile isspace s)"] by simp
  have l2: "length (dropWhile isspace s) \<le> length s"
    by (rule length_dropWhile_le)
  have front: "dropWhile isspace s = s"
  proof -
    have "length (dropWhile isspace s) = length s"
      using len l1 l2 by linarith
    then show ?thesis
      by (metis append_eq_conv_conj drop_all le_refl takeWhile_dropWhile_id
          length_append length_takeWhile_le add_cancel_left_left length_0_conv
          append_self_conv2)
  qed
  then have h: "\<not> isspace (hd s)"
    using assms(2) by (metis hd_dropWhile)
  have "length (dropWhile isspace (rev s)) = length (rev s)"
    using len front by simp
  then have "dropWhile isspace (rev s) = rev s"
    by (metis append_self_conv2 length_0_conv length_append add_cancel_left_left
        takeWhile_dropWhile_id)
  then have "\<not> isspace (hd (rev s))"
    using assms(2) by (metis hd_dropWhile rev_is_Nil_conv)
  then show ?thesis
    using h assms(2) by (simp add: hd_rev)
qed

lemma join_ends:
  assumes "xs \<noteq> []" and "\<forall>x\<in>set xs. x \<noteq> []"
  shows "join sep xs \<noteq> [] \<and> hd (join sep xs) = hd (hd xs)
         \<and> last (join sep xs) = last (last xs)"
  using assms
proof (induction sep xs rule: join.induct)
  case (1 sep)
  then show ?case by simp
next
  case (2 sep x)
  then show ?case by simp
next
  case (3 sep x y ys)
  then show ?case by simp
qed

lemma strip_join_normalised:
  assumes "\<forall>b\<in>set bs. normalised b"
  shows "strip (join sep (map btext bs)) = join sep (map btext bs)"
proof (cases bs)
  case Nil
  then show ?thesis by (simp add: strip_Nil)
next
  case (Cons b bs')
  let ?xs = "map btext bs"
  have ne: "?xs \<noteq> []" using Cons by simp
  have all: "\<forall>x\<in>set ?xs. x \<noteq> []"
    using assms by (auto simp: normalised_def)
  note e = join_ends [OF ne all, of sep]
  have bne: "bs \<noteq> []" using Cons by simp
  define b1 where "b1 = hd bs"
  define b2 where "b2 = last bs"
  have b1: "b1 \<in> set bs" "hd ?xs = btext b1"
    using bne by (simp_all add: b1_def hd_map)
  have b2: "b2 \<in> set bs" "last ?xs = btext b2"
    using bne by (simp_all add: b2_def last_map)
  have "\<not> isspace (hd (btext b1))"
    using strip_fixed_ends [of "btext b1"] assms b1(1) by (simp add: normalised_def)
  moreover have "\<not> isspace (last (btext b2))"
    using strip_fixed_ends [of "btext b2"] assms b2(1) by (simp add: normalised_def)
  ultimately show ?thesis
    using e b1(2) b2(2) by (intro strip_fixed) simp_all
qed

lemma case_found_list:
  "(case (case xs of [] \<Rightarrow> (False, []) | m # rest \<Rightarrow> (True, f rest)) of
      (found, ref_texts) \<Rightarrow> g ref_texts) =
   (case xs of [] \<Rightarrow> g [] | m # rest \<Rightarrow> g (f rest))"
  by (cases xs) simp_all

lemma set_dropWhile_tail:
  "dropWhile P xs = m # rest \<Longrightarrow> set rest \<subseteq> set xs"
  by (metis set_dropWhileD set_subset_Cons subsetI subset_iff)

lemma find_references_tail:
  assumes "\<forall>pg\<in>set pages_blocks. \<forall>b\<in>set (blocks pg). normalised b"
  shows "find_references pages_blocks =
     (case dropWhile (\<lambda>b. lower (strip (btext b)) \<notin>
                          set [''references'', ''reference'', ''bibliography'', ''works cited''])
                     (concat (map blocks pages_blocks)) of
        [] \<Rightarrow> []
      | m # rest \<Rightarrow> join blank_line (map btext rest))"
proof -
  let ?bs = "concat (map blocks pages_blocks)"
  define d where
    "d = dropWhile (\<lambda>b. lower (strip (btext b)) \<notin> set reference_markers) ?bs"
  have norm: "\<forall>b\<in>set ?bs. normalised b"
    using assms by auto
  have fr: "find_references pages_blocks =
      (case d of [] \<Rightarrow> strip (join blank_line [])
       | m # rest \<Rightarrow> strip (join blank_line (map (\<lambda>b. strip (btext b)) rest)))"
    unfolding find_references_def foldl_pages_blocks ref_step_search d_def
    by (rule case_found_list)
  have main: "find_references pages_blocks =
      (case d of [] \<Rightarrow> [] | m # rest \<Rightarrow> join blank_line (map btext rest))"
  proof (cases d)
    case Nil
    then show ?thesis
      using fr by (simp add: strip_Nil)
  next
    case (Cons m rest)
    have "set rest \<subseteq> set ?bs"
      using Cons unfolding d_def by (rule set_dropWhile_tail)
    then have nr: "\<forall>b\<in>set rest. normalised b"
      using norm by blast
    then have meq: "map (\<lambda>b. strip (btext b)) rest = map btext rest"
      by (simp add: normalised_def)
    have "find_references pages_blocks = strip (join blank_line (map btext rest))"
      using fr Cons by (simp add: meq)
    also have "\<dots> = join blank_line (map btext rest)"
      using nr by (rule strip_join_normalised)
    finally show ?thesis
      using Cons by simp
  qed
  show ?thesis
    using main unfolding d_def reference_markers_def .
qed

text \<open>
  C8. On normalised blocks (text stripped and not empty, as the normaliser leaves
  them), \<open>find_references\<close> looks for the first block, in document order, whose stripped
  and lowercased text is one of the four markers. Without such a block the result is
  the empty string; otherwise it is the texts of all later blocks joined by blank lines,
  the marker block left out.
\<close>

theorem find_references_after_marker:
  assumes "\<forall>pg\<in>set pages_blocks. \<forall>b\<in>set (blocks pg). normalised b"
  shows "find_references pages_blocks =
     (case dropWhile (\<lambda>b. lower (strip (btext b)) \<notin>
                          set [''references'', ''reference'', ''bibliography'', ''works cited''])
                     (concat (map blocks pages_blocks)) of
        [] \<Rightarrow> []
      | m # rest \<Rightarrow> join blank_line (map btext rest))"
  using assms by (rule find_references_tail)

lemma lower_eval:
  "lower ''Intro'' = ''intro''" "lower ''Body'' = ''body''"
  "lower ''References'' = ''references''"
  by code_simp+

lemma strip_eval_refs:
  "strip ''Intro'' = ''Intro''" "strip ''Body'' = ''Body''"
  "strip ''References'' = ''References''" "strip ''[1] A'' = ''[1] A''"
  "strip ''[2] B'' = ''[2] B''"
  by (simp_all add: strip_def isspace_def)

theorem find_references_after_marker_witness:
  "list_all normalised (concat (map blocks refs_doc4))
   \<and> find_references refs_doc4 = ''[1] A'' @ blank_line @ ''[2] B''
   \<and> find_references plain_doc3 = []"
proof -
  have n4: "list_all normalised (concat (map blocks refs_doc4))"
    by (simp add: refs_doc4_def text_page_def text_block_def normalised_def strip_eval_refs)
  then have h4: "\<forall>pg\<in>set refs_doc4. \<forall>b\<in>set (blocks pg). normalised b"
    by (auto simp: list_all_iff)
  have h3: "\<forall>pg\<in>set plain_doc3. \<forall>b\<in>set (blocks pg). normalised b"
    by (simp add: plain_doc3_def text_page_def text_block_def normalised_def strip_def isspace_def)
  have r4: "find_references refs_doc4 = ''[1] A'' @ blank_line @ ''[2] B''"
    using find_references_after_marker [OF h4]
    by (simp add: refs_doc4_def text_page_def text_block_def strip_eval_refs lower_eval)
  have l3: "lower ''a'' = ''a''" "lower ''b'' = ''b''" "lower ''c'' = ''c''"
    by code_simp+
  have s3: "strip ''a'' = ''a''" "strip ''b'' = ''b''" "strip ''c'' = ''c''"
    by (simp_all add: strip_def isspace_def)
  have r3: "find_references plain_doc3 = []"
    using find_references_after_marker [OF h3]
    by (simp add: plain_doc3_def text_page_def text_block_def l3 s3)
  show ?thesis
    using n4 r4 r3 by blast
qed

section \<open>Properties of the batch driver\<close>

lemma process_pdf_success_makes_dir:
  assumes "fst (process_pdf libs path output_dir) = Inr out"
  shows "snd (process_pdf libs path output_dir)"
  using assms
  by (auto simp: process_pdf_def split: prod.splits sum.splits option.splits)

lemma batch_loop_caught:
  assumes "\<forall>pdf\<in>set pdfs. \<forall>e. fst (process_pdf libs pdf output_dir) \<noteq> Inl (BaseException e)"
  shows "batch_loop libs output_dir (manifest, dir_exists) pdfs =
     Inr (manifest @ concat (map (\<lambda>pdf.
            case fst (process_pdf libs pdf output_dir) of
              Inl e \<Rightarrow> []
            | Inr out \<Rightarrow> [entry_for libs output_dir pdf out])
          pdfs),
          dir_exists \<or> (\<exists>pdf\<in>set pdfs. snd (process_pdf libs pdf output_dir)))"
  using assms
proof (induction pdfs arbitrary: manifest dir_exists)
  case Nil
  show ?case by simp
next
  case (Cons pdf pdfs)
  then have rest:
    "\<forall>pdf\<in>set pdfs. \<forall>e. fst (process_pdf libs pdf output_dir) \<noteq> Inl (BaseException e)"
    by simp
  note IH = Cons.IH [OF rest]
  obtain r made where pr: "process_pdf libs pdf output_dir = (r, made)"
    by (cases "process_pdf libs pdf output_dir") auto
  show ?case
  proof (cases r)
    case (Inr out)
    then show ?thesis
      using pr by (auto simp: IH)
  next
    case (Inl e)
    then obtain msg where "e = Exception msg"
      using Cons.prems pr by (cases e) auto
    then show ?thesis
      using Inl pr by (auto simp: IH)
  qed
qed

text \<open>
  C5. When every exception that \<open>process_pdf\<close> raises on the input files is of class
  \<open>Exception\<close>, the loop of the batch driver runs to its end: the manifest holds, in the
  sorted order of the paths, one entry for each path that \<open>process_pdf\<close> handled and
  none for a path on which it raised, whatever came before that path. The manifest is
  then written, unless the output directory is still missing (it was not there at the
  start and no call of \<open>process_pdf\<close> made it) or the operating system refuses the
  write. In particular, for three paths of which the second fails and the others
  succeed, the driver does not raise and writes the entries of the first and the third,
  provided the write of the manifest file itself is accepted.
\<close>

theorem batch_process_isolates_failures:
  assumes "\<forall>pdf\<in>set pdfs. \<forall>e. fst (process_pdf libs pdf output_dir) \<noteq> Inl (BaseException e)"
  shows "batch_process libs pdfs output_dir dir_exists =
     (let manifest = concat (map (\<lambda>pdf.
            case fst (process_pdf libs pdf output_dir) of
              Inl e \<Rightarrow> []
            | Inr out \<Rightarrow> [entry_for libs output_dir pdf out])
          (sort pdfs))
      in if \<not> (dir_exists \<or> (\<exists>pdf\<in>set pdfs. snd (process_pdf libs pdf output_dir)))
         then Inl (Exception ''FileNotFoundError'')
         else case dump_manifest libs (joinpath libs output_dir ''documents_manifest.json'')
                     manifest of
                Some e \<Rightarrow> Inl e
              | None \<Rightarrow> Inr manifest)
   \<and> (\<forall>f1 f2 f3 out1 out3 msg.
        sort pdfs = [f1, f2, f3]
        \<and> fst (process_pdf libs f1 output_dir) = Inr out1
        \<and> fst (process_pdf libs f2 output_dir) = Inl (Exception msg)
        \<and> fst (process_pdf libs f3 output_dir) = Inr out3
        \<and> dump_manifest libs (joinpath libs output_dir ''documents_manifest.json'')
             [entry_for libs output_dir f1 out1, entry_for libs output_dir f3 out3] = None
        \<longrightarrow> batch_process libs pdfs output_dir dir_exists =
            Inr [entry_for libs output_dir f1 out1, entry_for libs output_dir f3 out3])"
proof -
  have sorted_ok:
    "\<forall>pdf\<in>set (sort pdfs). \<forall>e. fst (process_pdf libs pdf output_dir) \<noteq> Inl (BaseException e)"
    using assms by simp
  have loop: "batch_loop libs output_dir ([], dir_exists) (sort pdfs) =
     Inr (concat (map (\<lambda>pdf.
            case fst (process_pdf libs pdf output_dir) of
              Inl e \<Rightarrow> []
            | Inr out \<Rightarrow> [entry_for libs output_dir pdf out])
          (sort pdfs)),
          dir_exists \<or> (\<exists>pdf\<in>set pdfs. snd (process_pdf libs pdf output_dir)))"
    using batch_loop_caught [OF sorted_ok, of "[]" dir_exists] by simp
  have eq: "batch_process libs pdfs output_dir dir_exists =
     (let manifest = concat (map (\<lambda>pdf.
            case fst (process_pdf libs pdf output_dir) of
              Inl e \<Rightarrow> []
            | Inr out \<Rightarrow> [entry_for libs output_dir pdf out])
          (sort pdfs))
      in if \<not> (dir_exists \<or> (\<exists>pdf\<in>set pdfs. snd (process_pdf libs pdf output_dir)))
         then Inl (Exception ''FileNotFoundError'')
         else case dump_manifest libs (joinpath libs output_dir ''documents_manifest.json'')
                     manifest of
                Some e \<Rightarrow> Inl e
              | None \<Rightarrow> Inr manifest)"
    unfolding batch_process_def loop by (simp add: Let_def)
  have three: "batch_process libs pdfs output_dir dir_exists =
            Inr [entry_for libs output_dir f1 out1, entry_for libs output_dir f3 out3]"
    if h: "sort pdfs = [f1, f2, f3]
        \<and> fst (process_pdf libs f1 output_dir) = Inr out1
        \<and> fst (process_pdf libs f2 output_dir) = Inl (Exception msg)
        \<and> fst (process_pdf libs f3 output_dir) = Inr out3
        \<and> dump_manifest libs (joinpath libs output_dir ''documents_manifest.json'')
             [entry_for libs output_dir f1 out1, entry_for libs output_dir f3 out3] = None"
    for f1 f2 f3 out1 out3 msg
  proof -
    have "f1 \<in> set (sort pdfs)"
      using h by simp
    then have mem: "f1 \<in> set pdfs"
      by simp
    have "snd (process_pdf libs f1 output_dir)"
      using h process_pdf_success_makes_dir by blast
    then have made: "\<exists>pdf\<in>set pdfs. snd (process_pdf libs pdf output_dir)"
      using mem by blast
    show ?thesis
      unfolding eq using h made by (simp add: Let_def)
  qed
  show ?thesis
    using eq three by blast
qed

lemma sort_test_pdfs: "sort [''c.pdf'', ''a.pdf'', ''b.pdf''] = [''a.pdf'', ''b.pdf'', ''c.pdf'']"
  by code_simp

lemma sanitize_eval:
  "sanitize_filename ''a'' = ''a''" "sanitize_filename ''b'' = ''b''"
  "sanitize_filename ''c'' = ''c''" "sanitize_filename ''my file(1)'' = ''my_file_1_''"
  by code_simp+

lemma test_process_pdf:
  "process_pdf test_libs ''a.pdf'' ''out'' =
     (Inr \<lparr>doc_id = ''doc-a.pdf'', filename = ''a.pdf''\<rparr>, True)"
  "process_pdf test_libs ''b.pdf'' ''out'' =
     (Inl (Exception ''cannot open broken document''), False)"
  "process_pdf test_libs ''c.pdf'' ''out'' =
     (Inr \<lparr>doc_id = ''doc-c.pdf'', filename = ''c.pdf''\<rparr>, True)"
  by (simp_all add: process_pdf_def test_libs_def)

theorem batch_process_isolates_failures_witness:
  "fst (process_pdf test_libs ''a.pdf'' ''out'') = Inr \<lparr>doc_id = ''doc-a.pdf'', filename = ''a.pdf''\<rparr>
   \<and> fst (process_pdf test_libs ''b.pdf'' ''out'') = Inl (Exception ''cannot open broken document'')
   \<and> fst (process_pdf test_libs ''c.pdf'' ''out'') = Inr \<lparr>doc_id = ''doc-c.pdf'', filename = ''c.pdf''\<rparr>
   \<and> batch_process test_libs [''c.pdf'', ''a.pdf'', ''b.pdf''] ''out'' False =
       Inr [\<lparr>entry_doc_id = ''doc-a.pdf'', entry_filename = ''a.pdf'', json_path = ''out/a.json''\<rparr>,
            \<lparr>entry_doc_id = ''doc-c.pdf'', entry_filename = ''c.pdf'', json_path = ''out/c.json''\<rparr>]"
proof -
  have h: "\<forall>pdf\<in>set [''c.pdf'', ''a.pdf'', ''b.pdf''].
      \<forall>e. fst (process_pdf test_libs pdf ''out'') \<noteq> Inl (BaseException e)"
    by (simp add: test_process_pdf)
  have ea: "entry_for test_libs ''out'' ''a.pdf'' \<lparr>doc_id = ''doc-a.pdf'', filename = ''a.pdf''\<rparr> =
      \<lparr>entry_doc_id = ''doc-a.pdf'', entry_filename = ''a.pdf'', json_path = ''out/a.json''\<rparr>"
    and ec: "entry_for test_libs ''out'' ''c.pdf'' \<lparr>doc_id = ''doc-c.pdf'', filename = ''c.pdf''\<rparr> =
      \<lparr>entry_doc_id = ''doc-c.pdf'', entry_filename = ''c.pdf'', json_path = ''out/c.json''\<rparr>"
    by (simp_all add: entry_for_def test_libs_def sanitize_eval)
  have dm: "dump_manifest test_libs f m = None" for f m
    by (simp add: test_libs_def)
  have "batch_process test_libs [''c.pdf'', ''a.pdf'', ''b.pdf''] ''out'' False =
       Inr [\<lparr>entry_doc_id = ''doc-a.pdf'', entry_filename = ''a.pdf'', json_path = ''out/a.json''\<rparr>,
            \<lparr>entry_doc_id = ''doc-c.pdf'', entry_filename = ''c.pdf'', json_path = ''out/c.json''\<rparr>]"
    using batch_process_isolates_failures [OF h, of False, THEN conjunct1]
    by (simp add: sort_test_pdfs test_process_pdf ea ec dm Let_def)
  then show ?thesis
    by (simp add: test_process_pdf)
qed

text \<open>
  When no file is processed and the output directory was not there, the write of the
  manifest raises: here the only file is the broken one.
\<close>

lemma batch_process_missing_output_dir:
  "batch_process test_libs [''b.pdf''] ''out'' False = Inl (Exception ''FileNotFoundError'')"
  by (simp add: batch_process_def test_process_pdf)

lemma batch_process_no_files:
  "batch_process libs [] output_dir False = Inl (Exception ''FileNotFoundError'')"
  by (simp add: batch_process_def)

section \<open>Properties of the segmenter: block consumption\<close>

lemma foldl_pages_stream:
  "foldl (\<lambda>st pg. foldl (section_step uuid4 threshold (page_number pg)) st (blocks pg))
         st pages_blocks =
   foldl (\<lambda>st x. section_step uuid4 threshold (fst x) st (snd x)) st (block_stream pages_blocks)"
proof (induction pages_blocks arbitrary: st)
  case Nil
  show ?case by (simp add: block_stream_def)
next
  case (Cons pg pages_blocks)
  have inner: "\<And>st bs. foldl (section_step uuid4 threshold (page_number pg)) st bs =
      foldl (\<lambda>st x. section_step uuid4 threshold (fst x) st (snd x)) st
            (map (Pair (page_number pg)) bs)"
    by (simp add: foldl_map)
  show ?case
    using Cons.IH by (simp add: block_stream_def inner)
qed

lemma pieces_snoc: "pieces (bs @ [b]) = pieces bs @ blank_line @ strip (btext b)"
  by (simp add: pieces_def)

lemma pieces_Nil_iff: "pieces bs = [] \<longleftrightarrow> bs = []"
  by (cases bs) (simp_all add: pieces_def blank_line_def)

lemma push_section_init: "push_section uuid4 dflt sections current_init = sections"
  by (simp add: push_section_def current_init_def)

lemma push_section_run:
  assumes "cur_from threshold cur g" and "g \<noteq> []" and "\<forall>x\<in>set g. normalised (snd x)"
    and "dflt = ''Untitled'' \<or> dflt = ''Introduction''"
  shows "\<exists>s. push_section uuid4 dflt sections cur = sections @ [s] \<and> sec_from threshold s g"
proof (cases "is_heading threshold (snd (hd g))")
  case True
  have "hd g \<in> set g" using assms(2) by simp
  then have "normalised (snd (hd g))" using assms(3) by blast
  then have ne: "strip (btext (snd (hd g))) \<noteq> []"
    by (simp add: normalised_def)
  have h: "cur_heading cur = Some (strip (btext (snd (hd g))))"
    using assms(1,2) True by (simp add: cur_from_def)
  show ?thesis
    using assms(1,2) True ne h
    by (simp add: push_section_def cur_from_def sec_from_def)
next
  case False
  have t: "cur_text cur = pieces (map snd g)" and h: "cur_heading cur = None"
    using assms(1,2) False by (simp_all add: cur_from_def)
  have ne: "cur_text cur \<noteq> []"
    using assms(2) t by (simp add: pieces_Nil_iff)
  show ?thesis
    using assms(1,2,4) False ne h t
    by (auto simp: push_section_def cur_from_def sec_from_def)
qed

lemma section_step_inv:
  assumes gs: "list_all2 (sec_from threshold) sections gs"
    and cur: "cur_from threshold cur g"
    and norm: "\<forall>x\<in>set g. normalised (snd x)"
    and step: "section_step uuid4 threshold pn (sections, cur) b = (sections', cur')"
  shows "\<exists>gs' g'. concat gs' @ g' = concat gs @ g @ [(pn, b)]
           \<and> list_all2 (sec_from threshold) sections' gs' \<and> cur_from threshold cur' g'"
proof (cases "is_heading threshold b")
  case True
  have cur': "cur' = \<lparr>cur_heading = Some (strip (btext b)), cur_text = [],
                      cur_start_page = Some pn, cur_end_page = Some pn\<rparr>"
    and secs': "sections' = push_section uuid4 ''Untitled'' sections cur"
    using step True by simp_all
  have new: "cur_from threshold cur' [(pn, b)]"
    using True by (simp add: cur_from_def cur' pieces_def)
  show ?thesis
  proof (cases "g = []")
    case True
    then have "cur = current_init"
      using cur by (simp add: cur_from_def)
    then have "sections' = sections"
      using secs' by (simp add: push_section_init)
    then have "concat gs @ [(pn, b)] = concat gs @ g @ [(pn, b)]
        \<and> list_all2 (sec_from threshold) sections' gs \<and> cur_from threshold cur' [(pn, b)]"
      using gs new True by simp
    then show ?thesis by blast
  next
    case False
    from push_section_run [OF cur False norm, of "''Untitled''" uuid4 sections]
    obtain s where s: "sections' = sections @ [s]" "sec_from threshold s g"
      using secs' by auto
    have "list_all2 (sec_from threshold) sections' (gs @ [g])"
      using gs s by (simp add: list_all2_appendI)
    moreover have "concat (gs @ [g]) @ [(pn, b)] = concat gs @ g @ [(pn, b)]"
      by simp
    ultimately show ?thesis
      using new by blast
  qed
next
  case False
  have cur': "cur' = cur\<lparr>cur_start_page :=
                  (if cur_start_page cur = None then Some pn else cur_start_page cur),
                cur_end_page := Some pn,
                cur_text := cur_text cur @ blank_line @ strip (btext b)\<rparr>"
    and secs': "sections' = sections"
    using step False by simp_all
  have new: "cur_from threshold cur' (g @ [(pn, b)])"
  proof (cases "g = []")
    case True
    then have "cur = current_init"
      using cur by (simp add: cur_from_def)
    then show ?thesis
      using True False by (simp add: cur_from_def cur' current_init_def pieces_def)
  next
    case ne: False
    then obtain x xs where g: "g = x # xs"
      by (cases g) auto
    show ?thesis
      using cur False
      by (auto simp: cur_from_def cur' g pieces_def)
  qed
  have "concat gs @ (g @ [(pn, b)]) = concat gs @ g @ [(pn, b)]"
    by simp
  then show ?thesis
    using gs new secs' by blast
qed

lemma section_loop_inv:
  assumes "\<forall>x\<in>set xs. normalised (snd x)"
    and "foldl (\<lambda>st x. section_step uuid4 threshold (fst x) st (snd x)) ([], current_init) xs
           = (sections, cur)"
  shows "\<exists>gs g. concat gs @ g = xs \<and> list_all2 (sec_from threshold) sections gs
           \<and> cur_from threshold cur g"
  using assms
proof (induction xs arbitrary: sections cur rule: rev_induct)
  case Nil
  then have "sections = []" and "cur = current_init"
    by simp_all
  then have "concat [] @ [] = ([] :: (int \<times> block) list)
      \<and> list_all2 (sec_from threshold) sections [] \<and> cur_from threshold cur []"
    by (simp add: cur_from_def)
  then show ?case by blast
next
  case (snoc x xs)
  obtain sections0 cur0 where
    st0: "foldl (\<lambda>st x. section_step uuid4 threshold (fst x) st (snd x)) ([], current_init) xs
            = (sections0, cur0)"
    by (cases "foldl (\<lambda>st x. section_step uuid4 threshold (fst x) st (snd x))
                 ([], current_init) xs") auto
  have norm: "\<forall>x\<in>set xs. normalised (snd x)"
    using snoc.prems(1) by simp
  from snoc.IH [OF norm st0] obtain gs g where
    inv: "concat gs @ g = xs" "list_all2 (sec_from threshold) sections0 gs"
      "cur_from threshold cur0 g"
    by blast
  have step: "section_step uuid4 threshold (fst x) (sections0, cur0) (snd x) = (sections, cur)"
    using snoc.prems(2) st0 by simp
  have ng: "\<forall>x\<in>set g. normalised (snd x)"
    using norm inv(1) by auto
  from section_step_inv [OF inv(2) inv(3) ng step] obtain gs' g' where
    "concat gs' @ g' = concat gs @ g @ [(fst x, snd x)]"
    "list_all2 (sec_from threshold) sections gs'" "cur_from threshold cur g'"
    by blast
  then show ?case
    using inv(1) by (metis append_assoc prod.collapse)
qed

lemma heading_path_groups:
  assumes "\<forall>x\<in>set (block_stream pages_blocks). normalised (snd x)"
    and "all_font_sizes pages_blocks \<noteq> []"
  shows "\<exists>gs. concat gs = block_stream pages_blocks
     \<and> list_all2 (sec_from (percentile (all_font_sizes pages_blocks) 90))
          (detect_headings_and_sections uuid4 pages_blocks) gs"
proof -
  let ?thr = "percentile (all_font_sizes pages_blocks) 90"
  obtain sections cur where
    st: "foldl (\<lambda>st x. section_step uuid4 ?thr (fst x) st (snd x)) ([], current_init)
           (block_stream pages_blocks) = (sections, cur)"
    by (cases "foldl (\<lambda>st x. section_step uuid4 ?thr (fst x) st (snd x)) ([], current_init)
           (block_stream pages_blocks)") auto
  have det: "detect_headings_and_sections uuid4 pages_blocks =
      push_section uuid4 ''Introduction'' sections cur"
    using assms(2) st
    by (simp add: detect_headings_and_sections_def foldl_pages_stream)
  from section_loop_inv [OF assms(1) st] obtain gs g where
    inv: "concat gs @ g = block_stream pages_blocks" "list_all2 (sec_from ?thr) sections gs"
      "cur_from ?thr cur g"
    by blast
  show ?thesis
  proof (cases "g = []")
    case True
    then have "cur = current_init"
      using inv(3) by (simp add: cur_from_def)
    then have "detect_headings_and_sections uuid4 pages_blocks = sections"
      using det by (simp add: push_section_init)
    then show ?thesis
      using inv True by auto
  next
    case False
    have ng: "\<forall>x\<in>set g. normalised (snd x)"
      using assms(1) inv(1) by (metis Un_iff set_append)
    from push_section_run [OF inv(3) False ng, of "''Introduction''" uuid4 sections]
    obtain s where s: "push_section uuid4 ''Introduction'' sections cur = sections @ [s]"
      "sec_from ?thr s g"
      by auto
    have "list_all2 (sec_from ?thr) (detect_headings_and_sections uuid4 pages_blocks) (gs @ [g])"
      using inv(2) s det by (simp add: list_all2_appendI)
    moreover have "concat (gs @ [g]) = block_stream pages_blocks"
      using inv(1) by simp
    ultimately show ?thesis by blast
  qed
qed

lemma fst_block_stream:
  "set (map fst (block_stream pages_blocks)) \<subseteq> set (map page_number pages_blocks)"
  by (auto simp: block_stream_def)

lemma sorted_block_stream:
  assumes "sorted (map page_number pages_blocks)"
  shows "sorted (map fst (block_stream pages_blocks))"
  using assms
proof (induction pages_blocks)
  case Nil
  show ?case by (simp add: block_stream_def)
next
  case (Cons pg pages_blocks)
  have tail: "sorted (map fst (block_stream pages_blocks))"
    using Cons by simp
  have low: "\<forall>y\<in>set (map fst (block_stream pages_blocks)). page_number pg \<le> y"
    using Cons.prems fst_block_stream [of pages_blocks] by auto
  have split: "map fst (block_stream (pg # pages_blocks)) =
      replicate (length (blocks pg)) (page_number pg) @ map fst (block_stream pages_blocks)"
    by (simp add: block_stream_def comp_def map_replicate_const)
  show ?case
    unfolding split using tail low
    by (simp add: sorted_append sorted_replicate)
qed

lemma sorted_hd_le_last:
  assumes "sorted (map f g)" and "g \<noteq> []"
  shows "f (hd g) \<le> f (last g)"
proof (cases g)
  case Nil
  then show ?thesis using assms(2) by simp
next
  case (Cons x xs)
  show ?thesis
  proof (cases "xs = []")
    case True
    then show ?thesis using Cons by simp
  next
    case False
    then have "last xs \<in> set xs" by simp
    then show ?thesis
      using assms(1) Cons False by auto
  qed
qed

lemma group_page_bounds:
  assumes "concat gs = xs" and "sorted (map fst xs)" and "g \<in> set gs" and "g \<noteq> []"
  shows "fst (hd g) \<le> fst (last g)"
proof -
  from assms(3) obtain as bs where "gs = as @ g # bs"
    by (meson split_list)
  then have "xs = concat as @ g @ concat bs"
    using assms(1) by simp
  then have "sorted (map fst g)"
    using assms(2) by (simp add: sorted_append)
  then show ?thesis
    using assms(4) by (rule sorted_hd_le_last)
qed

lemma list_all2_left_member:
  assumes "list_all2 P xs ys" and "x \<in> set xs"
  shows "\<exists>y\<in>set ys. P x y"
  using assms by (induction rule: list_all2_induct) auto

lemma fallback_groups:
  assumes "all_font_sizes pages_blocks = []"
  shows "list_all2 (built_from [])
           (detect_headings_and_sections uuid4 pages_blocks)
           (map (\<lambda>pg. map (Pair (page_number pg)) (blocks pg)) pages_blocks)"
proof -
  have det: "detect_headings_and_sections uuid4 pages_blocks =
      map (\<lambda>(i, pg). \<lparr>section_id = uuid4 i,
                       heading = ''Page '' @ str_int (page_number pg),
                       stext = join blank_line (map btext (blocks pg)),
                       start_page = Some (page_number pg),
                       end_page = Some (page_number pg)\<rparr>)
          (enumerate 0 pages_blocks)"
    using assms by (simp add: detect_headings_and_sections_def foldl_page_section)
  show ?thesis
    unfolding det
    by (simp add: list_all2_conv_all_nth nth_enumerate_eq built_from_def comp_def list_all_iff)
qed

lemma sections_consume_blocks_runs:
  assumes "sorted (map page_number pages_blocks)"
    and "\<forall>pg\<in>set pages_blocks. \<forall>b\<in>set (blocks pg). normalised b"
  shows "(\<forall>s\<in>set (detect_headings_and_sections uuid4 pages_blocks).
            \<exists>a b. start_page s = Some a \<and> end_page s = Some b \<and> a \<le> b)
     \<and> (\<exists>groups. concat groups = block_stream pages_blocks
           \<and> list_all2 (built_from (all_font_sizes pages_blocks))
                (detect_headings_and_sections uuid4 pages_blocks) groups)"
proof (cases "all_font_sizes pages_blocks = []")
  case True
  let ?gs = "map (\<lambda>pg. map (Pair (page_number pg)) (blocks pg)) pages_blocks"
  have g: "list_all2 (built_from (all_font_sizes pages_blocks))
            (detect_headings_and_sections uuid4 pages_blocks) ?gs"
    using fallback_groups [OF True, of uuid4] True by simp
  have c: "concat ?gs = block_stream pages_blocks"
    by (simp add: block_stream_def)
  have det: "detect_headings_and_sections uuid4 pages_blocks =
      foldl (page_section uuid4) [] pages_blocks"
    using True by (simp add: detect_headings_and_sections_def)
  have "\<forall>s\<in>set (detect_headings_and_sections uuid4 pages_blocks).
            \<exists>a b. start_page s = Some a \<and> end_page s = Some b \<and> a \<le> b"
    unfolding det foldl_page_section by auto
  then show ?thesis
    using g c by blast
next
  case False
  let ?thr = "percentile (all_font_sizes pages_blocks) 90"
  have norm: "\<forall>x\<in>set (block_stream pages_blocks). normalised (snd x)"
    using assms(2) by (auto simp: block_stream_def)
  from heading_path_groups [OF norm False, of uuid4] obtain gs where
    gs: "concat gs = block_stream pages_blocks"
      "list_all2 (sec_from ?thr) (detect_headings_and_sections uuid4 pages_blocks) gs"
    by blast
  have srt: "sorted (map fst (block_stream pages_blocks))"
    using assms(1) by (rule sorted_block_stream)
  have bounds: "\<forall>s\<in>set (detect_headings_and_sections uuid4 pages_blocks).
            \<exists>a b. start_page s = Some a \<and> end_page s = Some b \<and> a \<le> b"
  proof
    fix s assume s: "s \<in> set (detect_headings_and_sections uuid4 pages_blocks)"
    from list_all2_left_member [OF gs(2) s]
    obtain g where g: "g \<in> set gs" "sec_from ?thr s g"
      by auto
    then have ne: "g \<noteq> []" and se: "start_page s = Some (fst (hd g))"
      "end_page s = Some (fst (last g))"
      by (simp_all add: sec_from_def)
    have "fst (hd g) \<le> fst (last g)"
      using gs(1) srt g(1) ne by (rule group_page_bounds)
    then show "\<exists>a b. start_page s = Some a \<and> end_page s = Some b \<and> a \<le> b"
      using se by blast
  qed
  have "built_from (all_font_sizes pages_blocks) = sec_from ?thr"
    using False by (intro ext) (simp add: built_from_def)
  then show ?thesis
    using gs bounds by auto
qed

text \<open>
  C4. Let the pages come in ascending page number and let every block be normalised
  (text stripped and not empty), as the normaliser and the header removal leave them.
  Then every section that the segmenter returns has a start page and an end page, the
  first not after the second; and the stream of blocks splits into consecutive runs,
  one run per section and in the order of the sections, such that each section is
  made of the blocks of its run alone: without font sizes the run is a page's
  blocks, joined into the section's text; with font sizes the first block of the run
  is the section's heading or, like all others of the run, part of its text. So every
  block goes into exactly one section.
\<close>

theorem sections_consume_blocks:
  assumes "sorted (map page_number pages_blocks)"
    and "\<forall>pg\<in>set pages_blocks. \<forall>b\<in>set (blocks pg). normalised b"
  shows "(\<forall>s\<in>set (detect_headings_and_sections uuid4 pages_blocks).
            \<exists>a b. start_page s = Some a \<and> end_page s = Some b \<and> a \<le> b)
     \<and> (\<exists>groups. concat groups = block_stream pages_blocks
           \<and> list_all2 (built_from (all_font_sizes pages_blocks))
                (detect_headings_and_sections uuid4 pages_blocks) groups)"
  using assms by (rule sections_consume_blocks_runs)

lemma chapters_doc3_sizes: "all_font_sizes chapters_doc3 = [10, 24, 10, 10, 24, 10]"
  by (simp add: all_font_sizes_def chapters_doc3_def sized_block_def size_of_def)

lemma chapters_doc3_threshold: "percentile (all_font_sizes chapters_doc3) 90 = 24"
  by (simp add: chapters_doc3_sizes percentile_def)

lemma strip_eval_chapters:
  "strip ''opening'' = ''opening''" "strip ''Title'' = ''Title''" "strip ''one'' = ''one''"
  "strip ''two'' = ''two''" "strip ''Second'' = ''Second''" "strip ''three'' = ''three''"
  by (simp_all add: strip_def isspace_def)

lemma chapters_doc3_sections:
  "detect_headings_and_sections test_uuid4 chapters_doc3 =
     [\<lparr>section_id = ''id0'', heading = ''Untitled'', stext = ''opening'',
       start_page = Some 1, end_page = Some 1\<rparr>,
      \<lparr>section_id = ''id1'', heading = ''Title'', stext = ''one'' @ blank_line @ ''two'',
       start_page = Some 1, end_page = Some 2\<rparr>,
      \<lparr>section_id = ''id2'', heading = ''Second'', stext = ''three'',
       start_page = Some 2, end_page = Some 3\<rparr>]"
proof -
  have ne: "all_font_sizes chapters_doc3 \<noteq> []"
    by (simp add: chapters_doc3_sizes)
  have u2: "test_uuid4 (Suc (Suc 0)) = ''id2''"
    by code_simp
  show ?thesis
    using ne
    by (simp add: detect_headings_and_sections_def chapters_doc3_threshold)
       (simp add: chapters_doc3_def sized_block_def is_heading_def push_section_def
          current_init_def strip_def isspace_def blank_line_def test_uuid4_eval u2)
qed

theorem sections_consume_blocks_witness:
  "sorted (map page_number chapters_doc3)
   \<and> list_all normalised (concat (map blocks chapters_doc3))
   \<and> map heading (detect_headings_and_sections test_uuid4 chapters_doc3) =
       [''Untitled'', ''Title'', ''Second'']
   \<and> map start_page (detect_headings_and_sections test_uuid4 chapters_doc3) =
       [Some 1, Some 1, Some 2]
   \<and> map end_page (detect_headings_and_sections test_uuid4 chapters_doc3) =
       [Some 1, Some 2, Some 3]
   \<and> (\<exists>groups. concat groups = block_stream chapters_doc3
         \<and> list_all2 (built_from (all_font_sizes chapters_doc3))
              (detect_headings_and_sections test_uuid4 chapters_doc3) groups)"
proof -
  have srt: "sorted (map page_number chapters_doc3)"
    by (simp add: chapters_doc3_def)
  have nrm: "list_all normalised (concat (map blocks chapters_doc3))"
    by (simp add: chapters_doc3_def sized_block_def normalised_def strip_eval_chapters)
  then have h: "\<forall>pg\<in>set chapters_doc3. \<forall>b\<in>set (blocks pg). normalised b"
    by (auto simp: list_all_iff)
  have "\<exists>groups. concat groups = block_stream chapters_doc3
         \<and> list_all2 (built_from (all_font_sizes chapters_doc3))
              (detect_headings_and_sections test_uuid4 chapters_doc3) groups"
    using sections_consume_blocks [OF srt h, of test_uuid4] by (rule conjunct2)
  then show ?thesis
    using srt nrm by (simp add: chapters_doc3_sections)
qed

section \<open>The pages that reach the segmenter\<close>

lemma strip_ends:
  assumes "strip s \<noteq> []"
  shows "\<not> isspace (hd (strip s)) \<and> \<not> isspace (last (strip s))"
proof -
  define u where "u = dropWhile isspace s"
  define t where "t = dropWhile isspace (rev u)"
  have st: "strip s = rev t"
    by (simp add: strip_def t_def u_def)
  then have tne: "t \<noteq> []"
    using assms by simp
  have "\<not> isspace (hd t)"
    using tne unfolding t_def by (rule hd_dropWhile)
  then have l: "\<not> isspace (last (rev t))"
    using tne by (simp add: last_rev)
  have "rev u = takeWhile isspace (rev u) @ t"
    by (simp add: t_def)
  then have "last (rev u) = last t"
    using tne by (metis last_appendR)
  moreover have une: "u \<noteq> []"
    using tne t_def by auto
  ultimately have "last t = hd u"
    by (simp add: last_rev)
  moreover have "\<not> isspace (hd u)"
    using une unfolding u_def by (rule hd_dropWhile)
  ultimately have "\<not> isspace (hd (rev t))"
    using tne by (simp add: hd_rev)
  then show ?thesis
    using l st by simp
qed

lemma strip_idem: "strip (strip s) = strip s"
proof (cases "strip s = []")
  case True
  then show ?thesis by (simp add: strip_Nil)
next
  case False
  then show ?thesis
    using strip_ends [OF False] by (intro strip_fixed) simp_all
qed

lemma extract_text_blocks_normalised:
  assumes "p \<in> set (extract_text_blocks doc)" and "b \<in> set (blocks p)"
  shows "normalised b"
proof -
  from extract_text_blocks_source [OF assms] obtain lb where "b \<in> set (block_step [] lb)"
    by blast
  note e = block_step_emitted [OF this]
  have "btext b = strip (concat (map (\<lambda>sp. dict_get (span_text sp) []) (block_spans lb)))"
    using e by blast
  then have "strip (btext b) = btext b"
    by (metis strip_idem)
  moreover have "btext b \<noteq> []"
    using e by blast
  ultimately show ?thesis
    by (simp add: normalised_def)
qed

lemma extract_text_blocks_page_numbers:
  "map page_number (extract_text_blocks doc) = map (\<lambda>p. int p + 1) [0..<length doc]"
  by (simp add: extract_text_blocks_def comp_def)

lemma remove_repeated_headers_page_numbers:
  "map page_number (remove_repeated_headers_from_blocks pages_blocks repeated) =
     map page_number pages_blocks"
  by (simp add: remove_repeated_headers_from_blocks_def comp_def)

lemma remove_repeated_headers_blocks:
  assumes "pg \<in> set (remove_repeated_headers_from_blocks pages_blocks repeated)"
    and "b \<in> set (blocks pg)"
  shows "\<exists>pg'\<in>set pages_blocks. b \<in> set (blocks pg')"
  using assms by (auto simp: remove_repeated_headers_from_blocks_def split: if_splits)

text \<open>
  The pages that \<open>process_pdf\<close> passes on come in ascending page number, and all their
  blocks are normalised: the hypotheses of C4 and C8 hold for them.
\<close>

lemma filtered_pages_wellformed:
  "sorted (map page_number (filtered_pages doc))
   \<and> (\<forall>pg\<in>set (filtered_pages doc). \<forall>b\<in>set (blocks pg). normalised b)"
proof -
  have nums: "map page_number (filtered_pages doc) = map (\<lambda>p. int p + 1) [0..<length doc]"
    by (simp add: filtered_pages_def Let_def remove_repeated_headers_page_numbers
        extract_text_blocks_page_numbers)
  have "sorted (map (\<lambda>p. int p + 1) [0..<length doc])"
    by (simp add: sorted_map sorted_wrt_iff_nth_less)
  then have srt: "sorted (map page_number (filtered_pages doc))"
    using nums by simp
  have "normalised b" if "pg \<in> set (filtered_pages doc)" and "b \<in> set (blocks pg)" for pg b
  proof -
    have "\<exists>pg'\<in>set (extract_text_blocks doc). b \<in> set (blocks pg')"
      using that remove_repeated_headers_blocks
      by (fastforce simp: filtered_pages_def Let_def split: if_splits)
    then show ?thesis
      using extract_text_blocks_normalised by blast
  qed
  then show ?thesis
    using srt by blast
qed

text \<open>
  Both results therefore hold for the pages of every document, with no condition left:
  the sections of \<open>filtered_pages doc\<close> consume its block stream exactly, and its
  references are the blocks after the first marker.
\<close>

lemma filtered_pages_sections:
  "(\<forall>s\<in>set (detect_headings_and_sections uuid4 (filtered_pages doc)).
      \<exists>a b. start_page s = Some a \<and> end_page s = Some b \<and> a \<le> b)
   \<and> (\<exists>groups. concat groups = block_stream (filtered_pages doc)
         \<and> list_all2 (built_from (all_font_sizes (filtered_pages doc)))
              (detect_headings_and_sections uuid4 (filtered_pages doc)) groups)"
proof -
  have srt: "sorted (map page_number (filtered_pages doc))"
    and nrm: "\<forall>pg\<in>set (filtered_pages doc). \<forall>b\<in>set (blocks pg). normalised b"
    using filtered_pages_wellformed [of doc] by blast+
  show ?thesis
    using srt nrm by (rule sections_consume_blocks_runs)
qed

lemma filtered_pages_references:
  "find_references (filtered_pages doc) =
     (case dropWhile (\<lambda>b. lower (strip (btext b)) \<notin>
                          set [''references'', ''reference'', ''bibliography'', ''works cited''])
                     (concat (map blocks (filtered_pages doc))) of
        [] \<Rightarrow> []
      | m # rest \<Rightarrow> join blank_line (map btext rest))"
proof -
  have "\<forall>pg\<in>set (filtered_pages doc). \<forall>b\<in>set (blocks pg). normalised b"
    using filtered_pages_wellformed [of doc] by blast
  then show ?thesis
    by (rule find_references_tail)
qed

end
